theory Spec2Isabelle
  imports Complex_Main "HOL-Library.AList"
begin

section \<open>Python strings\<close>

text \<open>
  A Python \<open>str\<close> is modelled as a \<^typ>\<open>string\<close>: one \<^typ>\<open>char\<close> per character,
  for the characters with code points below 256. The functions below are the methods of
  \<open>str\<close> that the package calls, restricted to that range.
\<close>

definition isspace :: "char \<Rightarrow> bool" where
  \<comment> \<open>\<open>str.isspace\<close> on one character: TAB, LF, VT, FF, CR, FS, GS, RS, US, space, NEL, NBSP\<close>
  "isspace c \<longleftrightarrow> (of_char c :: nat) \<in> {9, 10, 11, 12, 13, 28, 29, 30, 31, 32, 133, 160}"

definition lstrip :: "string \<Rightarrow> string" where
  "lstrip s = dropWhile isspace s"

definition rstrip :: "string \<Rightarrow> string" where
  "rstrip s = rev (dropWhile isspace (rev s))"

definition strip :: "string \<Rightarrow> string" where
  \<comment> \<open>\<open>s.strip()\<close>\<close>
  "strip s = rstrip (lstrip s)"

definition lower_char :: "char \<Rightarrow> char" where
  "lower_char c =
     (let n = (of_char c :: nat)
      in if (65 \<le> n \<and> n \<le> 90) \<or> (192 \<le> n \<and> n \<le> 222 \<and> n \<noteq> 215)
         then char_of (n + 32) else c)"

definition lower :: "string \<Rightarrow> string" where
  \<comment> \<open>\<open>s.lower()\<close>\<close>
  "lower s = map lower_char s"

definition startswith :: "string \<Rightarrow> string \<Rightarrow> bool" where
  \<comment> \<open>\<open>s.startswith(p)\<close>\<close>
  "startswith s p \<longleftrightarrow> take (length p) s = p"

definition endswith :: "string \<Rightarrow> string \<Rightarrow> bool" where
  \<comment> \<open>\<open>s.endswith(p)\<close>\<close>
  "endswith s p \<longleftrightarrow> length p \<le> length s \<and> drop (length s - length p) s = p"

fun split_acc :: "char \<Rightarrow> string \<Rightarrow> string \<Rightarrow> string list" where
  "split_acc sep cur [] = [cur]"
| "split_acc sep cur (c # cs) =
     (if c = sep then cur # split_acc sep [] cs else split_acc sep (cur @ [c]) cs)"

definition split :: "string \<Rightarrow> char \<Rightarrow> string list" where
  \<comment> \<open>\<open>s.split(sep)\<close> for a separator of one character\<close>
  "split s sep = split_acc sep [] s"

fun join :: "string \<Rightarrow> string list \<Rightarrow> string" where
  \<comment> \<open>\<open>sep.join(parts)\<close>\<close>
  "join sep [] = []"
| "join sep [p] = p"
| "join sep (p # q # ps) = p @ sep @ join sep (q # ps)"

fun remove_all :: "string \<Rightarrow> string \<Rightarrow> string" where
  \<comment> \<open>\<open>s.replace(old, "")\<close> for a non-empty \<open>old\<close>: every occurrence, left to right\<close>
  "remove_all old [] = []"
| "remove_all old (c # cs) =
     (if old \<noteq> [] \<and> startswith (c # cs) old
      then remove_all old (drop (length old) (c # cs))
      else c # remove_all old cs)"

declare remove_all.simps [simp del]

definition split_once :: "string \<Rightarrow> char \<Rightarrow> string \<times> string" where
  \<comment> \<open>\<open>s.split(sep, 1)\<close> for an \<open>s\<close> that contains \<open>sep\<close>: the text before and after the
      first separator\<close>
  "split_once s sep = (takeWhile (\<lambda>c. c \<noteq> sep) s, drop 1 (dropWhile (\<lambda>c. c \<noteq> sep) s))"

section \<open>The manager's decision protocol (agent.py)\<close>

record new_skill =
  name :: string
  description :: string

record decision =
  start :: "string list"
  stop :: "string list"
  new :: "new_skill list"
  reason :: string

definition skill_names :: "string \<Rightarrow> string list" where
  \<comment> \<open>\<open>[s.strip() for s in skills.split(",") if s.strip()]\<close>\<close>
  "skill_names skills = map strip (filter (\<lambda>s. strip s \<noteq> []) (split skills CHR '',''))"

definition decision_line :: "decision \<Rightarrow> string \<Rightarrow> decision" where
  \<comment> \<open>the body of the loop of \<open>parse_skill_decision\<close>, for one line\<close>
  "decision_line result raw =
     (let line = strip raw in
      if startswith line ''START:'' then
        (let skills = strip (remove_all ''START:'' line) in
         if lower skills \<noteq> ''none'' then result\<lparr>start := skill_names skills\<rparr> else result)
      else if startswith line ''STOP:'' then
        (let skills = strip (remove_all ''STOP:'' line) in
         if lower skills \<noteq> ''none'' then result\<lparr>stop := skill_names skills\<rparr> else result)
      else if startswith line ''NEW:'' then
        (let new_skill = strip (remove_all ''NEW:'' line) in
         if lower new_skill \<noteq> ''none'' \<and> CHR '':'' \<in> set new_skill then
           (let (nm, desc) = split_once new_skill CHR '':'' in
            result\<lparr>new := new result @ [\<lparr>name = strip nm, description = strip desc\<rparr>]\<rparr>)
         else result)
      else if startswith line ''REASON:'' then
        result\<lparr>reason := strip (remove_all ''REASON:'' line)\<rparr>
      else result)"

definition parse_skill_decision :: "string \<Rightarrow> decision" where
  "parse_skill_decision response =
     foldl decision_line \<lparr>start = [], stop = [], new = [], reason = []\<rparr>
       (split (strip response) CHR ''\<newline>'')"

section \<open>The distillation protocol (observer.py)\<close>

record distill_result =
  details :: "string option"
  resource_files :: "(string \<times> string) list option"

text \<open>
  The local variables of the loop of \<open>parse_distill_response\<close>. The dict
  \<open>resource_files\<close> is an association list in insertion order; \<open>current_file\<close> is
  \<open>None\<close> or a string, and the loop tests its truth value.
\<close>

record distill_loop =
  files :: "(string \<times> string) list"
  main_content_lines :: "string list"
  current_file :: "string option"
  current_file_lines :: "string list"

definition truthy :: "string option \<Rightarrow> bool" where
  \<comment> \<open>the truth value of a \<open>str | None\<close>\<close>
  "truthy v \<longleftrightarrow> (case v of None \<Rightarrow> False | Some s \<Rightarrow> s \<noteq> [])"

definition save_file :: "distill_loop \<Rightarrow> (string \<times> string) list" where
  \<comment> \<open>\<open>if current_file: resource_files[current_file] = "\n".join(current_file_lines).strip()\<close>\<close>
  "save_file st =
     (if truthy (current_file st)
      then AList.update (the (current_file st))
             (strip (join ''\<newline>'' (current_file_lines st))) (files st)
      else files st)"

definition distill_line :: "distill_loop \<Rightarrow> string \<Rightarrow> distill_loop" where
  "distill_line st line =
     (if startswith line ''NEW_FILE:'' then
        st\<lparr>files := save_file st,
           current_file := Some (strip (remove_all ''NEW_FILE:'' line)),
           current_file_lines := []\<rparr>
      else if truthy (current_file st) then
        st\<lparr>current_file_lines := current_file_lines st @ [line]\<rparr>
      else
        st\<lparr>main_content_lines := main_content_lines st @ [line]\<rparr>)"

definition parse_distill_response :: "string \<Rightarrow> distill_result" where
  "parse_distill_response response =
     (if response = [] \<or> strip response = ''NO_UPDATE'' then
        \<lparr>details = None, resource_files = None\<rparr>
      else
        (let st = foldl distill_line
                    \<lparr>files = [], main_content_lines = [], current_file = None,
                       current_file_lines = []\<rparr>
                    (split response CHR ''\<newline>'');
             resources = save_file st;
             content = strip (join ''\<newline>'' (main_content_lines st))
         in \<lparr>details = (if content \<noteq> [] then Some content else None),
             resource_files = (if resources \<noteq> [] then Some resources else None)\<rparr>))"

section \<open>Messages and their truncation (agent.py, observer.py)\<close>

text \<open>
  A message is the dict \<open>{"role": ..., "content": ...}\<close>. The tracker builds it from
  JSON values; \<open>truncate_messages\<close> measures and slices the content, so it is typed
  here for messages whose content is a string. The role is only copied.
\<close>

record ('r, 'c) message =
  role :: 'r
  content :: 'c

fun agent_truncate_loop ::
  "('r, string) message list \<Rightarrow> int \<Rightarrow> ('r, string) message list \<Rightarrow> int
   \<Rightarrow> ('r, string) message list" where
  \<comment> \<open>the loop of \<open>truncate_messages\<close> in agent.py over the reversed messages, with its
      variables \<open>result\<close> and \<open>total_chars\<close>; \<open>break\<close> returns the result so far\<close>
  "agent_truncate_loop [] max_chars result total_chars = result"
| "agent_truncate_loop (msg # rest) max_chars result total_chars =
     (let capped = length (content msg) > 2000;
          text = (if capped then take 2000 (content msg) @ ''...'' else content msg);
          msg' = (if capped then \<lparr>role = role msg, content = text\<rparr> else msg);
          msg_chars = int (length text)
      in if total_chars + msg_chars > max_chars then result
         else agent_truncate_loop rest max_chars (result @ [msg']) (total_chars + msg_chars))"

definition agent_truncate_messages ::
  "('r, string) message list \<Rightarrow> int \<Rightarrow> ('r, string) message list" where
  "agent_truncate_messages messages max_chars =
     rev (agent_truncate_loop (rev messages) max_chars [] 0)"

fun observer_truncate_loop ::
  "('r, string) message list \<Rightarrow> int \<Rightarrow> ('r, string) message list \<Rightarrow> int
   \<Rightarrow> ('r, string) message list" where
  \<comment> \<open>the same loop as written in observer.py\<close>
  "observer_truncate_loop [] max_chars result total_chars = result"
| "observer_truncate_loop (msg # rest) max_chars result total_chars =
     (let capped = length (content msg) > 2000;
          text = (if capped then take 2000 (content msg) @ ''...'' else content msg);
          msg' = (if capped then \<lparr>role = role msg, content = text\<rparr> else msg);
          msg_chars = int (length text)
      in if total_chars + msg_chars > max_chars then result
         else observer_truncate_loop rest max_chars (result @ [msg']) (total_chars + msg_chars))"

definition observer_truncate_messages ::
  "('r, string) message list \<Rightarrow> int \<Rightarrow> ('r, string) message list" where
  "observer_truncate_messages messages max_chars =
     rev (observer_truncate_loop (rev messages) max_chars [] 0)"

text \<open>
  The words of the specification, for comparison with the two loops: a message with its
  content capped at 2000 characters plus an ellipsis, and the number of characters of a
  list of messages.
\<close>

definition spec_capped :: "('r, string) message \<Rightarrow> ('r, string) message" where
  "spec_capped m =
     (if length (content m) > 2000 then m\<lparr>content := take 2000 (content m) @ ''...''\<rparr>
      else m)"

definition spec_total :: "('r, string) message list \<Rightarrow> int" where
  "spec_total ms = sum_list (map (\<lambda>m. int (length (content m))) ms)"

section \<open>The index cap of \<open>summarize_index\<close> (observer.py)\<close>

text \<open>
  The cap counts UTF-8 bytes, so here a Python \<open>str\<close> is the list of its code points and
  a \<open>bytes\<close> value is the list of its bytes, both as natural numbers. A \<open>str\<close> may hold
  any code point below \<open>0x110000\<close>; \<open>str.encode("utf-8")\<close> raises
  \<open>UnicodeEncodeError\<close> on a surrogate.
\<close>

datatype unicode_error = UnicodeEncodeError

definition is_surrogate :: "nat \<Rightarrow> bool" where
  "is_surrogate c \<longleftrightarrow> 0xD800 \<le> c \<and> c \<le> 0xDFFF"

definition scalar :: "nat \<Rightarrow> bool" where
  \<comment> \<open>the code points that UTF-8 encodes\<close>
  "scalar c \<longleftrightarrow> c < 0x110000 \<and> \<not> is_surrogate c"

definition utf8_char :: "nat \<Rightarrow> nat list" where
  "utf8_char c =
     (if c < 0x80 then [c]
      else if c < 0x800 then [0xC0 + c div 64, 0x80 + c mod 64]
      else if c < 0x10000 then [0xE0 + c div 4096, 0x80 + c div 64 mod 64, 0x80 + c mod 64]
      else [0xF0 + c div 262144, 0x80 + c div 4096 mod 64, 0x80 + c div 64 mod 64,
            0x80 + c mod 64])"

definition utf8_encode :: "nat list \<Rightarrow> unicode_error + nat list" where
  \<comment> \<open>\<open>s.encode("utf-8")\<close>\<close>
  "utf8_encode s =
     (if list_all scalar s then Inr (concat (map utf8_char s)) else Inl UnicodeEncodeError)"

definition continuation :: "nat \<Rightarrow> bool" where
  "continuation b \<longleftrightarrow> 0x80 \<le> b \<and> b < 0xC0"

function utf8_decode_ignore :: "nat list \<Rightarrow> nat list" where
  \<comment> \<open>\<open>b.decode("utf-8", errors="ignore")\<close>: a well-formed sequence gives its code point;
      a byte that starts none is dropped and decoding goes on with the next byte\<close>
  "utf8_decode_ignore [] = []"
| "utf8_decode_ignore (b # bs) =
     (if b < 0x80 then b # utf8_decode_ignore bs
      else if 0xC2 \<le> b \<and> b < 0xE0 \<and> 1 \<le> length bs \<and> continuation (bs ! 0) then
        ((b - 0xC0) * 64 + (bs ! 0 - 0x80)) # utf8_decode_ignore (drop 1 bs)
      else if 0xE0 \<le> b \<and> b < 0xF0 \<and> 2 \<le> length bs
              \<and> continuation (bs ! 0) \<and> continuation (bs ! 1)
              \<and> 0x800 \<le> (b - 0xE0) * 4096 + (bs ! 0 - 0x80) * 64 + (bs ! 1 - 0x80)
              \<and> \<not> is_surrogate ((b - 0xE0) * 4096 + (bs ! 0 - 0x80) * 64 + (bs ! 1 - 0x80)) then
        ((b - 0xE0) * 4096 + (bs ! 0 - 0x80) * 64 + (bs ! 1 - 0x80))
          # utf8_decode_ignore (drop 2 bs)
      else if 0xF0 \<le> b \<and> b < 0xF5 \<and> 3 \<le> length bs
              \<and> continuation (bs ! 0) \<and> continuation (bs ! 1) \<and> continuation (bs ! 2)
              \<and> 0x10000 \<le> (b - 0xF0) * 262144 + (bs ! 0 - 0x80) * 4096
                              + (bs ! 1 - 0x80) * 64 + (bs ! 2 - 0x80)
              \<and> (b - 0xF0) * 262144 + (bs ! 0 - 0x80) * 4096
                    + (bs ! 1 - 0x80) * 64 + (bs ! 2 - 0x80) < 0x110000 then
        ((b - 0xF0) * 262144 + (bs ! 0 - 0x80) * 4096 + (bs ! 1 - 0x80) * 64 + (bs ! 2 - 0x80))
          # utf8_decode_ignore (drop 3 bs)
      else utf8_decode_ignore bs)"
  by pat_completeness auto
termination
  by (relation "measure length") auto

declare utf8_decode_ignore.simps [simp del]

definition uisspace :: "nat \<Rightarrow> bool" where
  \<comment> \<open>\<open>str.isspace\<close> on one code point\<close>
  "uisspace c \<longleftrightarrow>
     c \<in> {9, 10, 11, 12, 13, 28, 29, 30, 31, 32, 0x85, 0xA0, 0x1680, 0x2028, 0x2029, 0x202F,
          0x205F, 0x3000} \<or> (0x2000 \<le> c \<and> c \<le> 0x200A)"

definition ustrip :: "nat list \<Rightarrow> nat list" where
  \<comment> \<open>\<open>s.strip()\<close> on code points\<close>
  "ustrip s = rev (dropWhile uisspace (rev (dropWhile uisspace s)))"

definition slice_to :: "int \<Rightarrow> 'a list \<Rightarrow> 'a list" where
  \<comment> \<open>the slice \<open>xs[:n]\<close>; a negative \<open>n\<close> counts from the end\<close>
  "slice_to n xs = (if 0 \<le> n then take (nat n) xs else take (length xs - nat (- n)) xs)"

definition summarize_index :: "nat list option \<Rightarrow> int \<Rightarrow> unicode_error + nat list option" where
  \<comment> \<open>\<open>summarize_index\<close> from the engine's reply on: \<open>reply\<close> is the text of the last text
      block, \<open>None\<close> when the engine sent none\<close>
  "summarize_index reply max_index_size =
     (case reply of
        None \<Rightarrow> Inr None
      | Some result \<Rightarrow>
          if result = [] then Inr None
          else
            (let result = ustrip result in
             case utf8_encode result of
               Inl e \<Rightarrow> Inl e
             | Inr encoded \<Rightarrow>
                 if int (length encoded) > max_index_size
                 then Inr (Some (utf8_decode_ignore (slice_to max_index_size encoded)))
                 else Inr (Some result)))"

section \<open>Verification: the decision parser\<close>

text \<open>
  C5. The decision response of the specification's example, four lines separated by
  newlines, parses to the start list a, b, an empty stop list (the sentinel "none"),
  one new skill foo with the description "makes foo", and the reason x.
\<close>

theorem parse_skill_decision_example:
  "parse_skill_decision
     ''START: a, b\<newline>STOP: none\<newline>NEW: foo: makes foo\<newline>REASON: x''
   = \<lparr>start = [''a'', ''b''], stop = [],
      new = [\<lparr>name = ''foo'', description = ''makes foo''\<rparr>], reason = ''x''\<rparr>"
  by code_simp

section \<open>Verification: the distillation parser\<close>

lemma split_acc_append:
  "split_acc sep cur (a @ sep # b) = split_acc sep cur a @ split_acc sep [] b"
  by (induction a arbitrary: cur) auto

lemma split_acc_nosep: "sep \<notin> set s \<Longrightarrow> split_acc sep cur s = [cur @ s]"
  by (induction s arbitrary: cur) auto

lemma split_acc_nonempty: "split_acc sep cur s \<noteq> []"
  by (induction s arbitrary: cur) auto

lemma join_Cons: "xs \<noteq> [] \<Longrightarrow> join sep (x # xs) = x @ sep @ join sep xs"
  by (cases xs) auto

lemma join_split_acc: "join [sep] (split_acc sep cur s) = cur @ s"
  by (induction s arbitrary: cur) (auto simp: join_Cons split_acc_nonempty)

lemma join_split: "join ''\<newline>'' (split s CHR ''\<newline>'') = s"
  using join_split_acc [of "CHR ''\<newline>''" "[]" s] by (simp add: split_def)

lemma nonspace_strip: "filter (\<lambda>c. \<not> isspace c) (strip s) = filter (\<lambda>c. \<not> isspace c) s"
proof -
  have l: "filter (\<lambda>c. \<not> isspace c) (dropWhile isspace t) = filter (\<lambda>c. \<not> isspace c) t" for t
    by (induction t) auto
  show ?thesis
    unfolding strip_def rstrip_def lstrip_def
    by (metis l rev_filter rev_rev_ident)
qed

lemma strip_nonblank:
  assumes a: "strip p \<noteq> []" "filter (\<lambda>c. \<not> isspace c) p = []"
  shows False
proof -
  from a have "\<forall>c \<in> set p. isspace c" by (simp add: filter_empty_conv)
  then have d: "dropWhile isspace p = []" by (simp only: dropWhile_eq_Nil_conv)
  have "strip p = []" unfolding strip_def lstrip_def rstrip_def d by simp
  with a show False by simp
qed

lemma distill_main_lines:
  "\<forall>l \<in> set ls. \<not> startswith l ''NEW_FILE:'' \<Longrightarrow> \<not> truthy (current_file st) \<Longrightarrow>
   foldl distill_line st ls = st\<lparr>main_content_lines := main_content_lines st @ ls\<rparr>"
  by (induction ls arbitrary: st) (auto simp: distill_line_def)

lemma marker_ex: "startswith ''NEW_FILE: ex.md'' ''NEW_FILE:''"
  "strip (remove_all ''NEW_FILE:'' ''NEW_FILE: ex.md'') = ''ex.md''"
  by code_simp+

lemma distill_marker:
  "distill_line st ''NEW_FILE: ex.md''
   = st\<lparr>files := save_file st, current_file := Some ''ex.md'', current_file_lines := []\<rparr>"
  by (simp only: distill_line_def marker_ex if_True)

lemma distill_file_line:
  "\<not> startswith l ''NEW_FILE:'' \<Longrightarrow> truthy (current_file st) \<Longrightarrow>
   distill_line st l = st\<lparr>current_file_lines := current_file_lines st @ [l]\<rparr>"
  by (simp only: distill_line_def if_False if_True)

lemma marker_nonspace: "length (filter (\<lambda>c. \<not> isspace c) ''NEW_FILE: ex.md'') = 14"
  by code_simp

lemma no_update_nonspace: "length (filter (\<lambda>c. \<not> isspace c) ''NO_UPDATE'') = 9"
  by code_simp

lemma no_update: "parse_distill_response ''NO_UPDATE'' = \<lparr>details = None, resource_files = None\<rparr>"
  by code_simp

text \<open>
  C6. A response made of a details paragraph \<open>p\<close> (no line of it a \<open>NEW_FILE:\<close> marker,
  not blank), the line \<open>NEW_FILE: ex.md\<close> and two content lines parses to the trimmed
  paragraph as details and to the one resource file \<open>ex.md\<close> holding the two lines,
  trimmed; the response \<open>NO_UPDATE\<close> parses to the absent result.
\<close>

theorem parse_distill_response_resource:
  assumes para: "\<forall>l \<in> set (split p CHR ''\<newline>''). \<not> startswith l ''NEW_FILE:''"
    and nonblank: "strip p \<noteq> []"
    and c1: "CHR ''\<newline>'' \<notin> set c1" "\<not> startswith c1 ''NEW_FILE:''"
    and c2: "CHR ''\<newline>'' \<notin> set c2" "\<not> startswith c2 ''NEW_FILE:''"
  shows "parse_distill_response
           (p @ ''\<newline>'' @ ''NEW_FILE: ex.md'' @ ''\<newline>'' @ c1 @ ''\<newline>'' @ c2)
         = \<lparr>details = Some (strip p),
            resource_files = Some [(''ex.md'', strip (c1 @ ''\<newline>'' @ c2))]\<rparr>
       \<and> parse_distill_response ''NO_UPDATE'' = \<lparr>details = None, resource_files = None\<rparr>"
proof -
  let ?nl = "CHR ''\<newline>''"
  let ?r = "p @ ''\<newline>'' @ ''NEW_FILE: ex.md'' @ ''\<newline>'' @ c1 @ ''\<newline>'' @ c2"
  let ?init = "\<lparr>files = [], main_content_lines = [], current_file = None,
                 current_file_lines = []\<rparr>"
  have r: "?r = p @ ?nl # (''NEW_FILE: ex.md'' @ ?nl # (c1 @ ?nl # c2))" by simp
  have m: "?nl \<notin> set ''NEW_FILE: ex.md''" by simp
  have lines: "split ?r ?nl = split p ?nl @ [''NEW_FILE: ex.md'', c1, c2]"
    unfolding r split_def split_acc_append
    using split_acc_nosep [OF m, of "[]"] split_acc_nosep [OF c1(1), of "[]"]
      split_acc_nosep [OF c2(1), of "[]"] by simp
  have st1: "foldl distill_line ?init (split p ?nl)
      = ?init\<lparr>main_content_lines := split p ?nl\<rparr>"
    using distill_main_lines [OF para, of ?init] by (simp add: truthy_def)
  have st: "foldl distill_line ?init (split ?r ?nl)
      = \<lparr>files = [], main_content_lines = split p ?nl, current_file = Some ''ex.md'',
         current_file_lines = [c1, c2]\<rparr>"
    unfolding lines foldl_append st1
    using c1(2) c2(2)
    by (simp add: distill_marker distill_file_line save_file_def truthy_def)
  have "length (filter (\<lambda>c. \<not> isspace c) ?r) \<ge> 15"
  proof -
    have "length (filter (\<lambda>c. \<not> isspace c) p) \<ge> 1"
      using strip_nonblank [OF nonblank] by (cases "filter (\<lambda>c. \<not> isspace c) p") auto
    moreover have "length (filter (\<lambda>c. \<not> isspace c) ?r)
        \<ge> length (filter (\<lambda>c. \<not> isspace c) p)
          + length (filter (\<lambda>c. \<not> isspace c) ''NEW_FILE: ex.md'')"
      unfolding filter_append length_append by linarith
    ultimately show ?thesis unfolding marker_nonspace by linarith
  qed
  then have "length (filter (\<lambda>c. \<not> isspace c) (strip ?r)) \<ge> 15"
    by (simp only: nonspace_strip)
  then have big: "length (filter (\<lambda>c. \<not> isspace c) (strip ?r)) \<ge> 15" .
  have ne: "strip ?r \<noteq> ''NO_UPDATE''"
  proof
    assume "strip ?r = ''NO_UPDATE''"
    then have "length (filter (\<lambda>c. \<not> isspace c) (strip ?r)) = 9"
      by (simp only: no_update_nonspace)
    with big show False by linarith
  qed
  have r_ne: "?r \<noteq> []" by simp
  have "parse_distill_response ?r
         = \<lparr>details = Some (strip p),
            resource_files = Some [(''ex.md'', strip (c1 @ ''\<newline>'' @ c2))]\<rparr>"
    unfolding parse_distill_response_def Let_def st
    using ne r_ne nonblank by (simp add: join_split save_file_def truthy_def)
  then show ?thesis using no_update by simp
qed

theorem parse_distill_response_resource_witness:
  "parse_distill_response
     ''# Main\<newline>\<newline>Content.\<newline>\<newline>NEW_FILE: ex.md\<newline># Examples\<newline>Example 1: foo ''
   = \<lparr>details = Some ''# Main\<newline>\<newline>Content.'',
      resource_files = Some [(''ex.md'', ''# Examples\<newline>Example 1: foo'')]\<rparr>
   \<and> parse_distill_response ''NO_UPDATE'' = \<lparr>details = None, resource_files = None\<rparr>"
proof -
  let ?nl = "CHR ''\<newline>''"
  have a: "\<forall>l \<in> set (split ''# Main\<newline>\<newline>Content.\<newline>'' ?nl). \<not> startswith l ''NEW_FILE:''"
    by code_simp
  have b: "strip ''# Main\<newline>\<newline>Content.\<newline>'' \<noteq> []" by code_simp
  have c: "?nl \<notin> set ''# Examples''" "\<not> startswith ''# Examples'' ''NEW_FILE:''"
    "?nl \<notin> set ''Example 1: foo ''" "\<not> startswith ''Example 1: foo '' ''NEW_FILE:''"
    by code_simp+
  have s1: "strip ''# Main\<newline>\<newline>Content.\<newline>'' = ''# Main\<newline>\<newline>Content.''" by code_simp
  have s2: "strip (''# Examples'' @ ''\<newline>'' @ ''Example 1: foo '') = ''# Examples\<newline>Example 1: foo''"
    by code_simp
  show ?thesis
    using parse_distill_response_resource [OF a b c] unfolding s1 s2 by simp
qed

section \<open>Verification: the two copies of the message truncation\<close>

lemma truncate_loops_equal:
  "agent_truncate_loop xs mx res tot = observer_truncate_loop xs mx res tot"
  by (induction xs arbitrary: res tot) (simp_all add: Let_def)

lemma truncate_loop_step:
  "agent_truncate_loop (m # rest) mx res tot =
     (if tot + spec_total [spec_capped m] > mx then res
      else agent_truncate_loop rest mx (res @ [spec_capped m]) (tot + spec_total [spec_capped m]))"
  by (cases m) (simp add: Let_def spec_capped_def spec_total_def)

lemma spec_total_append: "spec_total (xs @ ys) = spec_total xs + spec_total ys"
  by (simp add: spec_total_def)

lemma spec_total_nonneg: "0 \<le> spec_total xs"
  by (induction xs) (simp_all add: spec_total_def)

lemma spec_total_rev: "spec_total (rev xs) = spec_total xs"
  by (simp add: spec_total_def rev_map [symmetric])

lemma truncate_loop_prefix:
  "tot \<le> mx \<Longrightarrow>
   \<exists>n \<le> length xs. agent_truncate_loop xs mx res tot = res @ map spec_capped (take n xs)
      \<and> tot + spec_total (map spec_capped (take n xs)) \<le> mx
      \<and> (n < length xs \<longrightarrow> mx < tot + spec_total (map spec_capped (take (Suc n) xs)))"
proof (induction xs arbitrary: res tot)
  case Nil
  then show ?case by (simp add: spec_total_def)
next
  case (Cons m rest)
  show ?case
  proof (cases "tot + spec_total [spec_capped m] > mx")
    case True
    then have "agent_truncate_loop (m # rest) mx res tot = res"
      by (simp only: truncate_loop_step if_True)
    with True Cons.prems show ?thesis
      by (intro exI [of _ 0]) (simp add: spec_total_def)
  next
    case False
    then have le: "tot + spec_total [spec_capped m] \<le> mx" by simp
    from Cons.IH [OF le, of "res @ [spec_capped m]"] obtain n where n: "n \<le> length rest"
      "agent_truncate_loop rest mx (res @ [spec_capped m]) (tot + spec_total [spec_capped m])
         = (res @ [spec_capped m]) @ map spec_capped (take n rest)"
      "tot + spec_total [spec_capped m] + spec_total (map spec_capped (take n rest)) \<le> mx"
      "n < length rest \<longrightarrow>
         mx < tot + spec_total [spec_capped m] + spec_total (map spec_capped (take (Suc n) rest))"
      by blast
    have step: "agent_truncate_loop (m # rest) mx res tot
        = agent_truncate_loop rest mx (res @ [spec_capped m]) (tot + spec_total [spec_capped m])"
      using False by (simp only: truncate_loop_step if_False)
    have t1: "spec_total (map spec_capped (take (Suc n) (m # rest)))
        = spec_total [spec_capped m] + spec_total (map spec_capped (take n rest))"
      by (simp add: spec_total_def)
    have t2: "spec_total (map spec_capped (take (Suc (Suc n)) (m # rest)))
        = spec_total [spec_capped m] + spec_total (map spec_capped (take (Suc n) rest))"
      by (simp add: spec_total_def)
    have r: "agent_truncate_loop (m # rest) mx res tot
        = res @ map spec_capped (take (Suc n) (m # rest))"
      unfolding step n(2) by simp
    have f: "tot + spec_total (map spec_capped (take (Suc n) (m # rest))) \<le> mx"
      unfolding t1 using n(3) by linarith
    have o: "Suc n < length (m # rest) \<longrightarrow>
        mx < tot + spec_total (map spec_capped (take (Suc (Suc n)) (m # rest)))"
      unfolding t2 using n(4) by auto
    from n(1) have "Suc n \<le> length (m # rest)" by simp
    with r f o show ?thesis by blast
  qed
qed


lemma spec_total_map_rev: "spec_total (map f (rev xs)) = spec_total (map f xs)"
  by (simp add: spec_total_def rev_map [symmetric] del: rev_map)

text \<open>
  C10. With the default budget of 30000 characters, \<open>truncate_messages\<close> of agent.py
  and of observer.py return the same list, and that list is the longest suffix of the
  input, each message capped at 2000 characters plus an ellipsis and in the input's
  order, whose capped contents total at most 30000 characters: it starts at some index
  \<open>k\<close>, fits the budget, and no suffix starting earlier fits.
\<close>

theorem truncate_messages_agree:
  "agent_truncate_messages ms 30000 = observer_truncate_messages ms 30000
   \<and> (\<exists>k \<le> length ms.
         agent_truncate_messages ms 30000 = map spec_capped (drop k ms)
       \<and> spec_total (map spec_capped (drop k ms)) \<le> 30000
       \<and> (\<forall>j < k. 30000 < spec_total (map spec_capped (drop j ms))))"
proof -
  have eq: "agent_truncate_messages ms 30000 = observer_truncate_messages ms 30000"
    by (simp add: agent_truncate_messages_def observer_truncate_messages_def truncate_loops_equal)
  from truncate_loop_prefix [of 0 30000 "rev ms" "[]"] obtain n where n: "n \<le> length ms"
    "agent_truncate_loop (rev ms) 30000 [] 0 = map spec_capped (take n (rev ms))"
    "spec_total (map spec_capped (take n (rev ms))) \<le> 30000"
    "n < length ms \<longrightarrow> 30000 < spec_total (map spec_capped (take (Suc n) (rev ms)))"
    by auto
  let ?k = "length ms - n"
  have tk: "take n (rev ms) = rev (drop ?k ms)"
    by (simp add: take_rev)
  have res: "agent_truncate_messages ms 30000 = map spec_capped (drop ?k ms)"
    by (simp add: agent_truncate_messages_def n(2) tk rev_map)
  have fit: "spec_total (map spec_capped (drop ?k ms)) \<le> 30000"
    using n(3) unfolding tk by (simp only: spec_total_map_rev)
  have over: "30000 < spec_total (map spec_capped (drop j ms))" if j: "j < ?k" for j
  proof -
    from j have nl: "n < length ms" by simp
    have "take (Suc n) (rev ms) = rev (drop (?k - 1) ms)"
      using nl by (simp add: take_rev)
    with n(4) nl have big: "30000 < spec_total (map spec_capped (drop (?k - 1) ms))"
      by (simp only: spec_total_map_rev)
    from j have "drop j ms = take (?k - 1 - j) (drop j ms) @ drop (?k - 1) ms"
      by (metis add.commute append_take_drop_id drop_drop le_add_diff_inverse2 less_imp_le_nat
          nat_less_le Suc_pred' less_Suc_eq_le zero_less_diff diff_is_0_eq' not_less0 gr0I)
    then have "spec_total (map spec_capped (drop j ms))
        = spec_total (map spec_capped (take (?k - 1 - j) (drop j ms)))
          + spec_total (map spec_capped (drop (?k - 1) ms))"
      by (metis map_append spec_total_append)
    with big spec_total_nonneg [of "map spec_capped (take (?k - 1 - j) (drop j ms))"]
    show ?thesis by linarith
  qed
  show ?thesis using eq res fit over by (intro conjI exI [of _ ?k]) auto
qed

theorem truncate_messages_agree_witness:
  "agent_truncate_messages (replicate 16 \<lparr>role = ''user'', content = replicate 2000 CHR ''a''\<rparr>) 30000
     = observer_truncate_messages
         (replicate 16 \<lparr>role = ''user'', content = replicate 2000 CHR ''a''\<rparr>) 30000
   \<and> (\<exists>k \<le> 16.
         agent_truncate_messages
           (replicate 16 \<lparr>role = ''user'', content = replicate 2000 CHR ''a''\<rparr>) 30000
         = map spec_capped (drop k (replicate 16 \<lparr>role = ''user'', content = replicate 2000 CHR ''a''\<rparr>))
       \<and> spec_total (map spec_capped
             (drop k (replicate 16 \<lparr>role = ''user'', content = replicate 2000 CHR ''a''\<rparr>))) \<le> 30000
       \<and> (\<forall>j < k. 30000 < spec_total (map spec_capped
             (drop j (replicate 16 \<lparr>role = ''user'', content = replicate 2000 CHR ''a''\<rparr>)))))"
proof -
  have l: "length (replicate 16 \<lparr>role = ''user'', content = replicate 2000 CHR ''a''\<rparr>) = 16"
    by simp
  show ?thesis
    using truncate_messages_agree
      [of "replicate 16 \<lparr>role = ''user'', content = replicate 2000 CHR ''a''\<rparr>"]
    unfolding l .
qed

section \<open>Verification: the index cap\<close>

lemma decode1: "b < 0x80 \<Longrightarrow> utf8_decode_ignore (b # rest) = b # utf8_decode_ignore rest"
  by (simp add: utf8_decode_ignore.simps)

lemma decode2:
  "2 \<le> h \<Longrightarrow> h < 32 \<Longrightarrow> l < 64 \<Longrightarrow>
   utf8_decode_ignore ((0xC0 + h) # (0x80 + l) # rest) = (h * 64 + l) # utf8_decode_ignore rest"
  by (simp add: utf8_decode_ignore.simps continuation_def)

lemma decode3:
  "h < 16 \<Longrightarrow> m < 64 \<Longrightarrow> l < 64 \<Longrightarrow> 0x800 \<le> h * 4096 + m * 64 + l \<Longrightarrow>
   \<not> is_surrogate (h * 4096 + m * 64 + l) \<Longrightarrow>
   utf8_decode_ignore ((0xE0 + h) # (0x80 + m) # (0x80 + l) # rest)
     = (h * 4096 + m * 64 + l) # utf8_decode_ignore rest"
  by (simp add: utf8_decode_ignore.simps continuation_def)

lemma decode4:
  "h < 5 \<Longrightarrow> m < 64 \<Longrightarrow> k < 64 \<Longrightarrow> l < 64 \<Longrightarrow>
   0x10000 \<le> h * 262144 + m * 4096 + k * 64 + l \<Longrightarrow>
   h * 262144 + m * 4096 + k * 64 + l < 0x110000 \<Longrightarrow>
   utf8_decode_ignore ((0xF0 + h) # (0x80 + m) # (0x80 + k) # (0x80 + l) # rest)
     = (h * 262144 + m * 4096 + k * 64 + l) # utf8_decode_ignore rest"
  by (simp add: utf8_decode_ignore.simps continuation_def)

lemma split3: "(c::nat) div 4096 * 4096 + c div 64 mod 64 * 64 + c mod 64 = c"
proof -
  have a: "c div 4096 = c div 64 div 64" by (simp add: div_mult2_eq [symmetric])
  have b: "c div 64 * 64 + c mod 64 = c" by simp
  have d: "c div 64 div 64 * 64 + c div 64 mod 64 = c div 64" by simp
  show ?thesis unfolding a using b d by linarith
qed

lemma split4:
  "(c::nat) div 262144 * 262144 + c div 4096 mod 64 * 4096 + c div 64 mod 64 * 64 + c mod 64 = c"
proof -
  have a: "c div 4096 = c div 64 div 64" by (simp add: div_mult2_eq [symmetric])
  have a2: "c div 262144 = c div 64 div 64 div 64" by (simp add: div_mult2_eq [symmetric])
  have b: "c div 64 * 64 + c mod 64 = c" by simp
  have d: "c div 64 div 64 * 64 + c div 64 mod 64 = c div 64" by simp
  have e: "c div 64 div 64 div 64 * 64 + c div 64 div 64 mod 64 = c div 64 div 64" by simp
  show ?thesis unfolding a a2 using b d e by linarith
qed

lemma decode_char:
  assumes "scalar c"
  shows "utf8_decode_ignore (utf8_char c @ rest) = c # utf8_decode_ignore rest"
proof -
  consider "c < 0x80" | "0x80 \<le> c" "c < 0x800" | "0x800 \<le> c" "c < 0x10000"
    | "0x10000 \<le> c" "c < 0x110000"
    using assms unfolding scalar_def by linarith
  then show ?thesis
  proof cases
    case 1
    then show ?thesis by (simp add: utf8_char_def decode1)
  next
    case 2
    then have b: "2 \<le> c div 64" "c div 64 < 32" "c mod 64 < 64" by simp_all
    have "c div 64 * 64 + c mod 64 = c" by simp
    with 2 decode2 [OF b, of rest] show ?thesis by (simp add: utf8_char_def)
  next
    case 3
    then have b: "c div 4096 < 16" "c div 64 mod 64 < 64" "c mod 64 < 64" by simp_all
    from assms have ns: "\<not> is_surrogate c" by (simp add: scalar_def)
    from 3 ns decode3 [OF b, of rest] show ?thesis
      unfolding split3 by (simp add: utf8_char_def)
  next
    case 4
    then have b: "c div 262144 < 5" "c div 4096 mod 64 < 64" "c div 64 mod 64 < 64" "c mod 64 < 64"
      by simp_all
    from 4 decode4 [OF b, of rest] show ?thesis
      unfolding split4 by (simp add: utf8_char_def)
  qed
qed

lemma decode_cut2: "h < 32 \<Longrightarrow> utf8_decode_ignore [0xC0 + h] = []"
  by (simp add: utf8_decode_ignore.simps)

lemma decode_cut3:
  "h < 16 \<Longrightarrow> m < 64 \<Longrightarrow> utf8_decode_ignore [0xE0 + h] = []
     \<and> utf8_decode_ignore [0xE0 + h, 0x80 + m] = []"
  by (simp add: utf8_decode_ignore.simps)

lemma decode_cut4:
  "h < 5 \<Longrightarrow> m < 64 \<Longrightarrow> k < 64 \<Longrightarrow> utf8_decode_ignore [0xF0 + h] = []
     \<and> utf8_decode_ignore [0xF0 + h, 0x80 + m] = []
     \<and> utf8_decode_ignore [0xF0 + h, 0x80 + m, 0x80 + k] = []"
  by (simp add: utf8_decode_ignore.simps)

lemma take_cases:
  "n < 2 \<Longrightarrow> take n [a, b] = [] \<or> take n [a, b] = [a]"
  "n < 3 \<Longrightarrow> take n [a, b, c] = [] \<or> take n [a, b, c] = [a] \<or> take n [a, b, c] = [a, b]"
  "n < 4 \<Longrightarrow> take n [a, b, c, d] = [] \<or> take n [a, b, c, d] = [a]
     \<or> take n [a, b, c, d] = [a, b] \<or> take n [a, b, c, d] = [a, b, c]"
  by (cases n; simp; cases "n - 1"; simp; cases "n - 2"; simp; cases "n - 3"; simp)+

lemma decode_cut:
  assumes "scalar c" "n < length (utf8_char c)"
  shows "utf8_decode_ignore (take n (utf8_char c)) = []"
proof -
  have e: "utf8_decode_ignore [] = []" by (simp add: utf8_decode_ignore.simps)
  consider "c < 0x80" | "0x80 \<le> c" "c < 0x800" | "0x800 \<le> c" "c < 0x10000"
    | "0x10000 \<le> c" "c < 0x110000"
    using assms unfolding scalar_def by linarith
  then show ?thesis
  proof cases
    case 1
    with assms(2) show ?thesis by (simp add: utf8_char_def e)
  next
    case 2
    then have u: "utf8_char c = [0xC0 + c div 64, 0x80 + c mod 64]" by (simp add: utf8_char_def)
    from 2 have b: "c div 64 < 32" by simp
    from assms(2) have n: "n < 2" unfolding u by simp
    from take_cases(1) [OF n] decode_cut2 [OF b] e show ?thesis
      unfolding u by metis
  next
    case 3
    then have u: "utf8_char c = [0xE0 + c div 4096, 0x80 + c div 64 mod 64, 0x80 + c mod 64]"
      by (simp add: utf8_char_def)
    from 3 have b: "c div 4096 < 16" "c div 64 mod 64 < 64" by simp_all
    from assms(2) have n: "n < 3" unfolding u by simp
    from take_cases(2) [OF n] decode_cut3 [OF b] e show ?thesis
      unfolding u by metis
  next
    case 4
    then have u: "utf8_char c = [0xF0 + c div 262144, 0x80 + c div 4096 mod 64,
        0x80 + c div 64 mod 64, 0x80 + c mod 64]"
      by (simp add: utf8_char_def)
    from 4 have b: "c div 262144 < 5" "c div 4096 mod 64 < 64" "c div 64 mod 64 < 64" by simp_all
    from assms(2) have n: "n < 4" unfolding u by simp
    from take_cases(3) [OF n] decode_cut4 [OF b] e show ?thesis
      unfolding u by metis
  qed
qed

lemma decode_take_encoded:
  "list_all scalar s \<Longrightarrow>
   \<exists>k. utf8_decode_ignore (take n (concat (map utf8_char s))) = take k s
      \<and> length (concat (map utf8_char (take k s))) \<le> n"
proof (induction s arbitrary: n)
  case Nil
  then show ?case by (simp add: utf8_decode_ignore.simps)
next
  case (Cons c cs)
  then have sc: "scalar c" and scs: "list_all scalar cs" by simp_all
  let ?L = "length (utf8_char c)"
  show ?case
  proof (cases "?L \<le> n")
    case True
    from Cons.IH [OF scs, of "n - ?L"] obtain k where
      k: "utf8_decode_ignore (take (n - ?L) (concat (map utf8_char cs))) = take k cs"
         "length (concat (map utf8_char (take k cs))) \<le> n - ?L"
      by blast
    from True have "take n (concat (map utf8_char (c # cs)))
        = utf8_char c @ take (n - ?L) (concat (map utf8_char cs))"
      by simp
    then have "utf8_decode_ignore (take n (concat (map utf8_char (c # cs)))) = take (Suc k) (c # cs)"
      using decode_char [OF sc] k(1) by simp
    moreover have "length (concat (map utf8_char (take (Suc k) (c # cs)))) \<le> n"
      using True k(2) by simp
    ultimately show ?thesis by blast
  next
    case False
    then have "take n (concat (map utf8_char (c # cs))) = take n (utf8_char c)" by simp
    then have "utf8_decode_ignore (take n (concat (map utf8_char (c # cs)))) = take 0 (c # cs)"
      using decode_cut [OF sc, of n] False by simp
    moreover have "length (concat (map utf8_char (take 0 (c # cs)))) \<le> n" by simp
    ultimately show ?thesis by blast
  qed
qed

lemma ustrip_subset: "set (ustrip s) \<subseteq> set s"
proof -
  have "set (ustrip s) \<subseteq> set (dropWhile uisspace s)"
    unfolding ustrip_def by (metis set_dropWhileD set_rev subsetI)
  also have "\<dots> \<subseteq> set s" by (meson set_dropWhileD subsetI)
  finally show ?thesis .
qed

lemma ustrip_scalar: "list_all scalar s \<Longrightarrow> list_all scalar (ustrip s)"
  using ustrip_subset [of s] by (auto simp: list_all_iff)

lemma encode_Inr: "utf8_encode s = Inr bs \<longleftrightarrow> list_all scalar s \<and> bs = concat (map utf8_char s)"
  by (auto simp: utf8_encode_def)

lemma cap_result:
  assumes cap: "0 \<le> cap" and sc: "list_all scalar t"
    and big: "int (length (concat (map utf8_char t))) > cap"
  shows "\<exists>k. utf8_decode_ignore (slice_to cap (concat (map utf8_char t))) = take k t
     \<and> int (length (concat (map utf8_char (take k t)))) \<le> cap"
proof -
  from decode_take_encoded [OF sc, of "nat cap"] obtain k where
    k: "utf8_decode_ignore (take (nat cap) (concat (map utf8_char t))) = take k t"
       "length (concat (map utf8_char (take k t))) \<le> nat cap"
    by blast
  from k(2) cap have "int (length (concat (map utf8_char (take k t)))) \<le> cap" by linarith
  with k(1) cap show ?thesis by (auto simp: slice_to_def)
qed

text \<open>
  C2. For a byte cap that is not negative: whenever \<open>summarize_index\<close> returns index
  content for an engine reply \<open>s\<close>, the UTF-8 encoding of that content has at most
  \<open>cap\<close> bytes, the content is a prefix of the stripped reply made of whole characters,
  and it is the stripped reply itself when that already fits the cap. It does return
  content for every non-empty reply whose characters UTF-8 can encode.
\<close>

theorem summarize_index_cap:
  assumes cap: "0 \<le> cap"
  shows "(list_all scalar s \<and> s \<noteq> [] \<longrightarrow> (\<exists>c. summarize_index (Some s) cap = Inr (Some c)))
     \<and> (\<forall>c. summarize_index (Some s) cap = Inr (Some c) \<longrightarrow>
           (\<exists>bs. utf8_encode c = Inr bs \<and> int (length bs) \<le> cap)
         \<and> (\<exists>rest. ustrip s = c @ rest)
         \<and> (\<forall>bs. utf8_encode (ustrip s) = Inr bs \<and> int (length bs) \<le> cap \<longrightarrow> c = ustrip s))"
proof (intro conjI allI impI)
  assume "list_all scalar s \<and> s \<noteq> []"
  then have "utf8_encode (ustrip s) = Inr (concat (map utf8_char (ustrip s)))" "s \<noteq> []"
    using ustrip_scalar [of s] by (simp_all add: utf8_encode_def)
  then show "\<exists>c. summarize_index (Some s) cap = Inr (Some c)"
    by (simp add: summarize_index_def Let_def)
next
  fix c
  assume r: "summarize_index (Some s) cap = Inr (Some c)"
  let ?t = "ustrip s"
  let ?e = "concat (map utf8_char ?t)"
  from r have sc: "list_all scalar ?t"
    by (auto simp: summarize_index_def Let_def utf8_encode_def split: if_splits)
  then have enc: "utf8_encode ?t = Inr ?e" by (simp add: utf8_encode_def)
  from r enc have c: "c = (if int (length ?e) > cap then utf8_decode_ignore (slice_to cap ?e) else ?t)"
    by (auto simp: summarize_index_def Let_def split: if_splits)
  have "(\<exists>bs. utf8_encode c = Inr bs \<and> int (length bs) \<le> cap) \<and> (\<exists>rest. ?t = c @ rest)
      \<and> (int (length ?e) \<le> cap \<longrightarrow> c = ?t)"
  proof (cases "int (length ?e) > cap")
    case True
    from cap_result [OF cap sc True] obtain k where
      k: "utf8_decode_ignore (slice_to cap ?e) = take k ?t"
         "int (length (concat (map utf8_char (take k ?t)))) \<le> cap"
      by blast
    from c True k(1) have ck: "c = take k ?t" by simp
    from sc have "list_all scalar (take k ?t)"
      by (auto simp: list_all_iff dest: in_set_takeD)
    then have "utf8_encode c = Inr (concat (map utf8_char (take k ?t)))"
      unfolding ck by (simp add: utf8_encode_def)
    moreover have "?t = c @ drop k ?t" unfolding ck by simp
    moreover from True have "\<not> int (length ?e) \<le> cap" by simp
    ultimately show ?thesis using k(2) by (intro conjI) (blast, blast, simp)
  next
    case False
    with c enc show ?thesis by simp
  qed
  then show "\<exists>bs. utf8_encode c = Inr bs \<and> int (length bs) \<le> cap"
    and "\<exists>rest. ustrip s = c @ rest"
    and "\<And>bs. utf8_encode (ustrip s) = Inr bs \<and> int (length bs) \<le> cap \<Longrightarrow> c = ustrip s"
    using enc by auto
qed

theorem summarize_index_cap_witness:
  "summarize_index (Some [97, 0x20AC, 32]) 3 = Inr (Some [97])
   \<and> (\<exists>bs. utf8_encode [97] = Inr bs \<and> int (length bs) \<le> 3)
   \<and> (\<exists>rest. ustrip [97, 0x20AC, 32] = [97] @ rest)"
proof -
  have r: "summarize_index (Some [97, 0x20AC, 32]) 3 = Inr (Some [97])"
    by (simp add: summarize_index_def ustrip_def uisspace_def utf8_encode_def scalar_def
        is_surrogate_def utf8_char_def slice_to_def utf8_decode_ignore.simps Let_def)
  have "(0::int) \<le> 3" by simp
  from summarize_index_cap [OF this, of "[97, 0x20AC, 32]"] r show ?thesis by blast
qed

end
